theory Spec2Isabelle
  imports Main "HOL-Library.Word"
begin

section \<open>The singly linked list of libadt (list.h, list.c)\<close>

subsection \<open>Data model\<close>

text \<open>
  A pointer to a node is an optional address: \<open>None\<close> is \<open>NULL\<close>.  The payload of a
  node is the opaque \<open>void *data\<close>, kept polymorphic.  The node memory is a partial map
  from addresses to nodes: an address outside its domain is unallocated (never returned
  by \<open>malloc\<close>, or already given back by \<open>free\<close>).
\<close>

type_synonym addr = nat

record 'd ADT_sl_node =
  data :: 'd
  "next" :: "addr option"

record ADT_sl_list =
  head :: "addr option"
  tail :: "addr option"
  len :: "32 word"

type_synonym 'd heap = "addr \<Rightarrow> 'd ADT_sl_node option"

text \<open>
  Every operation takes \<open>struct ADT_sl_list *list\<close> and works on the nodes reachable from
  it, so the state of the model is the list structure together with the node memory.
\<close>

record 'd state =
  list :: ADT_sl_list
  heap :: "'d heap"

text \<open>
  \<open>Abort\<close> is a failed \<open>assert\<close> (the process is terminated).  \<open>Invalid_Access\<close> is
  the dereference of \<open>NULL\<close> or of an unallocated address, which C leaves undefined.
\<close>

datatype fault = Abort | Invalid_Access

subsection \<open>Operations\<close>

definition ADT_sl_list_length :: "ADT_sl_list \<Rightarrow> 32 word" where
  "ADT_sl_list_length l = len l"

definition ADT_sl_list_init :: "'d state \<Rightarrow> 'd state" where
  "ADT_sl_list_init s = s\<lparr>list := (list s)\<lparr>head := None, tail := None, len := 0\<rparr>\<rparr>"

text \<open>
  The result of the call to \<open>malloc\<close> is an argument \<open>m\<close> of each allocating operation:
  \<open>None\<close> when the allocation fails, \<open>Some node\<close> when it returns the address
  \<open>node\<close>.  A real \<open>malloc\<close> only returns an address that is not allocated at that
  moment; the theorems assume it where they need it.
\<close>

definition ADT_sl_list_push :: "'d state \<Rightarrow> 'd \<Rightarrow> addr option \<Rightarrow> 'd state \<times> int" where
  "ADT_sl_list_push s d m =
     (case m of
        None \<Rightarrow> (s, - 1)
      | Some node \<Rightarrow>
          (let l1 = (if ADT_sl_list_length (list s) = 0
                     then (list s)\<lparr>tail := Some node\<rparr> else list s);
               h1 = (heap s)(node := Some \<lparr>data = d, next = head l1\<rparr>);
               l2 = l1\<lparr>head := Some node\<rparr>;
               l3 = l2\<lparr>len := len l2 + 1\<rparr>
           in (\<lparr>list = l3, heap = h1\<rparr>, 0)))"

definition ADT_sl_list_pop :: "'d state \<Rightarrow> fault + ('d state \<times> 'd)" where
  "ADT_sl_list_pop s =
     (if ADT_sl_list_length (list s) = 0 then Inl Abort
      else case head (list s) of
        None \<Rightarrow> Inl Invalid_Access
      | Some node \<Rightarrow>
          (case heap s node of
             None \<Rightarrow> Inl Invalid_Access
           | Some n \<Rightarrow>
               Inr (\<lparr>list = (list s)\<lparr>head := next n, len := len (list s) - 1\<rparr>,
                     heap = (heap s)(node := None)\<rparr>,
                    data n)))"

definition ADT_sl_list_append :: "'d state \<Rightarrow> 'd \<Rightarrow> addr option \<Rightarrow> fault + ('d state \<times> int)" where
  "ADT_sl_list_append s d m =
     (if ADT_sl_list_length (list s) = 0
      then Inr (fst (ADT_sl_list_push s d m), 0)
      else case m of
        None \<Rightarrow> Inr (s, - 1)
      | Some node \<Rightarrow>
          (let h1 = (heap s)(node := Some \<lparr>data = d, next = None\<rparr>)
           in case tail (list s) of
                None \<Rightarrow> Inl Invalid_Access
              | Some t \<Rightarrow>
                  (case h1 t of
                     None \<Rightarrow> Inl Invalid_Access
                   | Some tn \<Rightarrow>
                       Inr (\<lparr>list = (list s)\<lparr>tail := Some node, len := len (list s) + 1\<rparr>,
                             heap = h1(t := Some (tn\<lparr>next := Some node\<rparr>))\<rparr>,
                            0))))"

text \<open>
  In \<open>insert_after\<close> the statements after the allocation are taken one by one.
  \<open>h1\<close> is the memory after \<open>node->data = data\<close>: the new node is allocated and its
  \<open>next\<close> field is not written yet (indeterminate in C, \<open>NULL\<close> here).  \<open>h2\<close> is the
  memory after \<open>node->next = loc->next\<close> and the last update is \<open>loc->next = node\<close>;
  both read \<open>loc\<close> in the memory as it is at that point.  So when \<open>loc\<close> is a stale
  pointer whose address \<open>malloc\<close> has just returned again, the call returns 0 and the
  new node is its own successor, whatever the unwritten field held.
\<close>

definition ADT_sl_list_insert_after ::
  "'d state \<Rightarrow> addr option \<Rightarrow> 'd \<Rightarrow> addr option \<Rightarrow> fault + ('d state \<times> int)" where
  "ADT_sl_list_insert_after s loc d m =
     (case m of
        None \<Rightarrow> Inr (s, - 1)
      | Some node \<Rightarrow>
          (let l1 = (if loc = tail (list s) then (list s)\<lparr>tail := Some node\<rparr> else list s);
               h1 = (heap s)(node := Some \<lparr>data = d, next = None\<rparr>)
           in case loc of
                None \<Rightarrow> Inl Invalid_Access
              | Some a \<Rightarrow>
                  (case h1 a of
                     None \<Rightarrow> Inl Invalid_Access
                   | Some ln \<Rightarrow>
                       (let h2 = h1(node := Some \<lparr>data = d, next = next ln\<rparr>)
                        in case h2 a of
                             None \<Rightarrow> Inl Invalid_Access
                           | Some ln' \<Rightarrow>
                               Inr (\<lparr>list = l1\<lparr>len := len l1 + 1\<rparr>,
                                     heap = h2(a := Some (ln'\<lparr>next := Some node\<rparr>))\<rparr>,
                                    0)))))"

definition ADT_sl_list_remove_after ::
  "'d state \<Rightarrow> addr option \<Rightarrow> fault + ('d state \<times> 'd)" where
  "ADT_sl_list_remove_after s loc =
     (if loc = tail (list s) then Inl Abort
      else case loc of
        None \<Rightarrow> Inl Invalid_Access
      | Some a \<Rightarrow>
          (case heap s a of
             None \<Rightarrow> Inl Invalid_Access
           | Some ln \<Rightarrow>
               (case next ln of
                  None \<Rightarrow> Inl Invalid_Access
                | Some ptr \<Rightarrow>
                    (case heap s ptr of
                       None \<Rightarrow> Inl Invalid_Access
                     | Some pn \<Rightarrow>
                         Inr (\<lparr>list = (list s)\<lparr>len := len (list s) - 1\<rparr>,
                               heap = ((heap s)(a := Some (ln\<lparr>next := next pn\<rparr>)))(ptr := None)\<rparr>,
                              data pn)))))"


text \<open>
  The destructor \<open>destroy\<close> is a function pointer supplied by the caller; what it does
  to the rest of the program is a transformer of a state \<open>'w\<close> of the caller's choice.
  The loop runs while the count is non-zero and each iteration pops once.
\<close>

function ADT_sl_list_destroy ::
  "('d \<Rightarrow> 'w \<Rightarrow> 'w) \<Rightarrow> 'd state \<Rightarrow> 'w \<Rightarrow> fault + ('d state \<times> 'w)" where
  "ADT_sl_list_destroy destroy s w =
     (if ADT_sl_list_length (list s) \<noteq> 0
      then (case ADT_sl_list_pop s of
              Inl e \<Rightarrow> Inl e
            | Inr (s', d) \<Rightarrow> ADT_sl_list_destroy destroy s' (destroy d w))
      else Inr (s\<lparr>list := (list s)\<lparr>head := None, tail := None\<rparr>\<rparr>, w))"
  by pat_completeness auto
termination
proof (relation "measure (\<lambda>(destroy, s, w). unat (len (list s)))")
  show "wf (measure (\<lambda>(destroy, s, w). unat (len (list s))))"
    by simp
next
  fix destroy :: "'d \<Rightarrow> 'w \<Rightarrow> 'w" and s :: "'d state" and w :: 'w
    and b :: "'d state \<times> 'd" and s' :: "'d state" and d :: 'd
  assume nz: "ADT_sl_list_length (list s) \<noteq> 0"
    and pop: "ADT_sl_list_pop s = Inr b" and b: "(s', d) = b"
  from nz have "unat (len (list s)) \<noteq> 0"
    by (simp add: ADT_sl_list_length_def unat_eq_zero)
  moreover from nz pop b have "len (list s') = len (list s) - 1"
    by (auto simp: ADT_sl_list_pop_def split: option.splits)
  moreover from nz have "unat (len (list s) - 1) = unat (len (list s)) - 1"
    by (simp add: ADT_sl_list_length_def unat_minus_one)
  ultimately show "((destroy, s', destroy d w), (destroy, s, w))
      \<in> measure (\<lambda>(destroy, s, w). unat (len (list s)))"
    by simp
qed

declare ADT_sl_list_destroy.simps [simp del]

subsection \<open>The list a state represents\<close>

text \<open>
  \<open>seg h p xs q\<close>: following the \<open>next\<close> fields from the pointer \<open>p\<close> visits exactly
  the allocated nodes listed in \<open>xs\<close> (address and data of each, in order) and then
  arrives at the pointer \<open>q\<close>.
\<close>

fun seg :: "'d heap \<Rightarrow> addr option \<Rightarrow> (addr \<times> 'd) list \<Rightarrow> addr option \<Rightarrow> bool" where
  "seg h p [] q = (p = q)"
| "seg h p ((a, d) # xs) q =
     (p = Some a \<and>
      (case h a of None \<Rightarrow> False | Some n \<Rightarrow> data n = d \<and> seg h (next n) xs q))"

definition tail_of :: "(addr \<times> 'd) list \<Rightarrow> addr option" where
  "tail_of xs = (case rev xs of [] \<Rightarrow> None | (a, d) # r \<Rightarrow> Some a)"

text \<open>
  \<open>counted s xs\<close> is invariant (a) of the data model: the nodes reachable from
  \<open>head\<close> are \<open>xs\<close>, the chain ends in \<open>NULL\<close>, and \<open>len\<close> is their number.
  \<open>valid_list s xs\<close> adds that \<open>tail\<close> points to the last of them, or is \<open>NULL\<close> when
  there is none: together this gives invariants (a) to (e).
\<close>

definition counted :: "'d state \<Rightarrow> (addr \<times> 'd) list \<Rightarrow> bool" where
  "counted s xs =
     (seg (heap s) (head (list s)) xs None \<and> unat (len (list s)) = length xs)"

definition valid_list :: "'d state \<Rightarrow> (addr \<times> 'd) list \<Rightarrow> bool" where
  "valid_list s xs = (counted s xs \<and> tail (list s) = tail_of xs)"

subsection \<open>Callers used to state the properties\<close>

text \<open>
  A destructor that also records the data it is called with, in call order: running
  \<open>destroy\<close> with it shows how often and on what the destructor was invoked.
\<close>

definition logged :: "('d \<Rightarrow> 'w \<Rightarrow> 'w) \<Rightarrow> 'd \<Rightarrow> 'w \<times> 'd list \<Rightarrow> 'w \<times> 'd list" where
  "logged destroy d = (\<lambda>(w, calls). (destroy d w, calls @ [d]))"

text \<open>
  A caller that pushes (appends) the data of \<open>xs\<close> one after the other; for the pair
  \<open>(node, d)\<close> the call stores \<open>d\<close> and its \<open>malloc\<close> succeeds with the address
  \<open>node\<close>.  The result is \<open>Some\<close> only when every call returned 0.
\<close>

fun push_all :: "'d state \<Rightarrow> (addr \<times> 'd) list \<Rightarrow> 'd state option" where
  "push_all s [] = Some s"
| "push_all s ((node, d) # xs) =
     (case ADT_sl_list_push s d (Some node) of
        (s', rc) \<Rightarrow> if rc = 0 then push_all s' xs else None)"

fun append_all :: "'d state \<Rightarrow> (addr \<times> 'd) list \<Rightarrow> 'd state option" where
  "append_all s [] = Some s"
| "append_all s ((node, d) # xs) =
     (case ADT_sl_list_append s d (Some node) of
        Inl e \<Rightarrow> None
      | Inr (s', rc) \<Rightarrow> if rc = 0 then append_all s' xs else None)"

text \<open>
  The lists of the largest sizes.  \<open>a_nodes n\<close> is \<open>n\<close> calls that each store
  \<open>CHR ''a''\<close>, with \<open>malloc\<close> returning the addresses \<open>0, 1, 2, \<dots>\<close> in turn;
  \<open>pushed n\<close> and \<open>appended n\<close> are the states that \<open>n\<close> such pushes, and \<open>n\<close>
  such appends, reach from the initialised empty list (for \<open>n\<close> up to \<open>2 ^ 32\<close>).
\<close>

fun a_nodes :: "nat \<Rightarrow> (addr \<times> char) list" where
  "a_nodes 0 = []"
| "a_nodes (Suc n) = a_nodes n @ [(n, CHR ''a'')]"

definition pushed :: "nat \<Rightarrow> char state" where
  "pushed n =
     \<lparr>list = \<lparr>head = (if n = 0 then None else Some (n - 1)),
              tail = (if n = 0 then None else Some 0),
              len = of_nat n\<rparr>,
      heap = (\<lambda>a. if a < n
                   then Some \<lparr>data = CHR ''a'', next = (if a = 0 then None else Some (a - 1))\<rparr>
                   else None)\<rparr>"

definition appended :: "nat \<Rightarrow> char state" where
  "appended n =
     \<lparr>list = \<lparr>head = (if n = 0 then None else Some 0),
              tail = (if n = 0 then None else Some (n - 1)),
              len = of_nat n\<rparr>,
      heap = (\<lambda>a. if a < n
                   then Some \<lparr>data = CHR ''a'', next = (if Suc a < n then Some (Suc a) else None)\<rparr>
                   else None)\<rparr>"

section \<open>Properties\<close>

subsection \<open>Chains of nodes\<close>

lemma seg_append:
  "seg h p (xs @ ys) q = (\<exists>r. seg h p xs r \<and> seg h r ys q)"
  by (induction xs arbitrary: p) (auto split: option.splits)

lemma seg_unique:
  "seg h p xs None \<Longrightarrow> seg h p ys None \<Longrightarrow> xs = ys"
proof (induction xs arbitrary: p ys)
  case Nil
  then show ?case by (cases ys) auto
next
  case (Cons x xs)
  obtain a d where x: "x = (a, d)" by (cases x)
  from Cons.prems x obtain y ys' where ys: "ys = y # ys'"
    by (cases ys) auto
  obtain b e where y: "y = (b, e)" by (cases y)
  from Cons.prems x ys y obtain n where
    "b = a" "h a = Some n" "data n = d" "e = d"
    "seg h (next n) xs None" "seg h (next n) ys' None"
    by (auto split: option.splits)
  with Cons.IH x ys y show ?case by auto
qed

lemma seg_head_notin:
  assumes "h a = Some n" and "seg h (next n) xs None"
  shows "a \<notin> fst ` set xs"
proof
  assume "a \<in> fst ` set xs"
  then obtain d where "(a, d) \<in> set xs" by auto
  then obtain us vs where xs: "xs = us @ (a, d) # vs"
    by (auto simp: in_set_conv_decomp)
  with assms have "seg h (next n) vs None"
    by (auto simp: seg_append split: option.splits)
  with assms have "xs = vs" by (blast intro: seg_unique)
  with xs show False by simp
qed

lemma seg_distinct:
  "seg h p xs None \<Longrightarrow> distinct (map fst xs)"
proof (induction xs arbitrary: p)
  case Nil
  then show ?case by simp
next
  case (Cons x xs)
  obtain a d where x: "x = (a, d)" by (cases x)
  from Cons.prems x obtain n where n: "h a = Some n" "seg h (next n) xs None"
    by (auto split: option.splits)
  from n have "a \<notin> fst ` set xs" by (rule seg_head_notin)
  with Cons.IH n x show ?case by simp
qed

lemma seg_upd_other:
  "a \<notin> fst ` set xs \<Longrightarrow> seg (h(a := v)) p xs q = seg h p xs q"
  by (induction xs arbitrary: p) (auto split: option.splits)

lemma seg_fresh:
  "seg h p xs q \<Longrightarrow> h a = None \<Longrightarrow> a \<notin> fst ` set xs"
proof (induction xs arbitrary: p)
  case Nil
  then show ?case by simp
next
  case (Cons x xs)
  obtain b d where x: "x = (b, d)" by (cases x)
  from Cons.prems x obtain n where "h b = Some n" "seg h (next n) xs q"
    by (auto split: option.splits)
  with Cons.IH Cons.prems x show ?case by auto
qed


subsection \<open>Counting\<close>

lemma len_nonzero:
  "unat (w :: 32 word) = Suc k \<Longrightarrow> w \<noteq> 0"
  by auto

lemma unat_pred:
  "unat (w :: 32 word) = Suc k \<Longrightarrow> unat (w - 1) = k"
  by (simp add: len_nonzero unat_minus_one)

lemma unat_succ:
  "unat (w :: 32 word) = k \<Longrightarrow> Suc k < 2 ^ 32 \<Longrightarrow> unat (w + 1) = Suc k"
  by (simp add: unat_word_ariths)

subsection \<open>pop\<close>

lemma pop_counted:
  assumes "counted s ((a, d) # xs)"
  obtains n where "heap s a = Some n"
    and "ADT_sl_list_pop s =
             Inr (\<lparr>list = (list s)\<lparr>head := next n, len := len (list s) - 1\<rparr>,
                   heap = (heap s)(a := None)\<rparr>, d)"
    and "counted \<lparr>list = (list s)\<lparr>head := next n, len := len (list s) - 1\<rparr>,
                    heap = (heap s)(a := None)\<rparr> xs"
proof -
  from assms obtain n where hd: "head (list s) = Some a" and n: "heap s a = Some n"
    and d: "data n = d" and rest: "seg (heap s) (next n) xs None"
    and cnt: "unat (len (list s)) = Suc (length xs)"
    by (auto simp: counted_def split: option.splits)
  from n rest have "a \<notin> fst ` set xs" by (rule seg_head_notin)
  with rest have "seg ((heap s)(a := None)) (next n) xs None"
    by (simp add: seg_upd_other)
  moreover from cnt have "len (list s) \<noteq> 0" by (rule len_nonzero)
  moreover from cnt have "unat (len (list s) - 1) = length xs" by (rule unat_pred)
  ultimately show ?thesis
    using hd n d that [of n]
    by (simp add: ADT_sl_list_pop_def ADT_sl_list_length_def counted_def)
qed

text \<open>
  C4.  \<open>pop\<close> ends in the failed assertion exactly when the count of the list is zero.
  On a list of at least one node (\<open>counted\<close>, with head node \<open>a\<close> holding \<open>d\<close>) it
  does not fail: it returns \<open>d\<close>, the node \<open>a\<close> is freed, the remaining nodes are the
  list, and the count is one less.
\<close>

theorem pop_aborts_iff_empty:
  "(ADT_sl_list_pop s = Inl Abort \<longleftrightarrow> ADT_sl_list_length (list s) = 0) \<and>
   (counted s ((a, d) # xs) \<longrightarrow>
      ADT_sl_list_length (list s) \<noteq> 0 \<and>
      (\<exists>s'. ADT_sl_list_pop s = Inr (s', d) \<and>
            counted s' xs \<and>
            heap s' = (heap s)(a := None) \<and>
            ADT_sl_list_length (list s') = ADT_sl_list_length (list s) - 1 \<and>
            unat (ADT_sl_list_length (list s')) + 1 = unat (ADT_sl_list_length (list s))))"
proof (intro conjI impI)
  show "ADT_sl_list_pop s = Inl Abort \<longleftrightarrow> ADT_sl_list_length (list s) = 0"
    by (simp add: ADT_sl_list_pop_def split: option.splits)
next
  assume c: "counted s ((a, d) # xs)"
  then show "ADT_sl_list_length (list s) \<noteq> 0"
    by (auto simp: counted_def ADT_sl_list_length_def)
next
  assume c: "counted s ((a, d) # xs)"
  from c obtain n where "heap s a = Some n" and
    pop: "ADT_sl_list_pop s =
             Inr (\<lparr>list = (list s)\<lparr>head := next n, len := len (list s) - 1\<rparr>,
                   heap = (heap s)(a := None)\<rparr>, d)"
    and c': "counted \<lparr>list = (list s)\<lparr>head := next n, len := len (list s) - 1\<rparr>,
                    heap = (heap s)(a := None)\<rparr> xs"
    by (rule pop_counted)
  from c c' have "unat (len (list s) - 1) + 1 = unat (len (list s))"
    by (simp add: counted_def)
  with pop c' show "\<exists>s'. ADT_sl_list_pop s = Inr (s', d) \<and>
            counted s' xs \<and>
            heap s' = (heap s)(a := None) \<and>
            ADT_sl_list_length (list s') = ADT_sl_list_length (list s) - 1 \<and>
            unat (ADT_sl_list_length (list s')) + 1 = unat (ADT_sl_list_length (list s))"
    by (simp add: ADT_sl_list_length_def)
qed

theorem pop_aborts_iff_empty_witness:
  "counted \<lparr>list = \<lparr>head = Some 0, tail = Some 1, len = 2\<rparr>,
            heap = [0 \<mapsto> \<lparr>data = CHR ''a'', next = Some 1\<rparr>,
                    1 \<mapsto> \<lparr>data = CHR ''b'', next = None\<rparr>]\<rparr>
     [(0, CHR ''a''), (1, CHR ''b'')] \<and>
   ADT_sl_list_pop \<lparr>list = \<lparr>head = Some 0, tail = Some 1, len = 2\<rparr>,
            heap = [0 \<mapsto> \<lparr>data = CHR ''a'', next = Some 1\<rparr>,
                    1 \<mapsto> \<lparr>data = CHR ''b'', next = None\<rparr>]\<rparr>
     = Inr (\<lparr>list = \<lparr>head = Some 1, tail = Some 1, len = 1\<rparr>,
             heap = [1 \<mapsto> \<lparr>data = CHR ''b'', next = None\<rparr>]\<rparr>, CHR ''a'') \<and>
   ADT_sl_list_pop \<lparr>list = \<lparr>head = None, tail = None, len = 0\<rparr>,
            heap = (Map.empty :: char heap)\<rparr> = Inl Abort"
proof -
  let ?s = "\<lparr>list = \<lparr>head = Some 0, tail = Some 1, len = 2\<rparr>,
            heap = [0 \<mapsto> \<lparr>data = CHR ''a'', next = Some 1\<rparr>,
                    1 \<mapsto> \<lparr>data = CHR ''b'', next = None\<rparr>]\<rparr>"
  let ?e = "\<lparr>list = \<lparr>head = None, tail = None, len = 0\<rparr>,
            heap = (Map.empty :: char heap)\<rparr>"
  have c: "counted ?s [(0, CHR ''a''), (1, CHR ''b'')]"
    by (simp add: counted_def)
  have e: "ADT_sl_list_length (list ?e) = 0"
    by (simp add: ADT_sl_list_length_def)
  from pop_aborts_iff_empty [of ?s 0 "CHR ''a''" "[(1, CHR ''b'')]"] c
  obtain s' where "ADT_sl_list_pop ?s = Inr (s', CHR ''a'')"
    and "heap s' = (heap ?s)(0 := None)"
    by blast
  moreover have "ADT_sl_list_pop ?s
     = Inr (\<lparr>list = \<lparr>head = Some 1, tail = Some 1, len = 1\<rparr>,
             heap = [1 \<mapsto> \<lparr>data = CHR ''b'', next = None\<rparr>]\<rparr>, CHR ''a'')"
    by (simp add: ADT_sl_list_pop_def ADT_sl_list_length_def fun_eq_iff)
  moreover from pop_aborts_iff_empty [of ?e] e have "ADT_sl_list_pop ?e = Inl Abort"
    by blast
  ultimately show ?thesis using c by simp
qed


subsection \<open>Allocation failure\<close>

lemma push_result:
  "snd (ADT_sl_list_push s d m) = (case m of None \<Rightarrow> - 1 | Some node \<Rightarrow> 0)"
  by (simp add: ADT_sl_list_push_def Let_def split: option.splits)

lemma append_nonempty_alloc_failure:
  "ADT_sl_list_length (list s) \<noteq> 0 \<Longrightarrow> ADT_sl_list_append s d None = Inr (s, - 1)"
  by (simp add: ADT_sl_list_append_def)

text \<open>
  C1.  On an empty list \<open>append\<close> calls \<open>push\<close> and drops its result: when the
  allocation fails there, the list is left as it was and \<open>append\<close> returns 0, not - 1.
\<close>

theorem append_on_empty_list_hides_allocation_failure:
  "ADT_sl_list_push (ADT_sl_list_init s) d None = (ADT_sl_list_init s, - 1) \<and>
   ADT_sl_list_append (ADT_sl_list_init s) d None = Inr (ADT_sl_list_init s, 0)"
  by (simp add: ADT_sl_list_append_def ADT_sl_list_push_def ADT_sl_list_init_def
      ADT_sl_list_length_def)

text \<open>
  C10.  When the allocation fails, \<open>push\<close> and \<open>insert_after\<close> return - 1 and the
  state (the list structure and every node) is the one before the call; and - 1 is
  returned in no other case.
\<close>

theorem alloc_failure_leaves_list_unchanged:
  "ADT_sl_list_push s d None = (s, - 1) \<and>
   ADT_sl_list_insert_after s loc d None = Inr (s, - 1) \<and>
   (ADT_sl_list_push s d m = (s', - 1) \<longrightarrow> m = None \<and> s' = s) \<and>
   (ADT_sl_list_insert_after s loc d m = Inr (s', - 1) \<longrightarrow> m = None \<and> s' = s)"
  by (auto simp: ADT_sl_list_push_def ADT_sl_list_insert_after_def Let_def
      split: option.splits)

theorem alloc_failure_leaves_list_unchanged_witness:
  "ADT_sl_list_push
     \<lparr>list = \<lparr>head = Some 0, tail = Some 0, len = 1\<rparr>,
      heap = [0 \<mapsto> \<lparr>data = CHR ''a'', next = None\<rparr>]\<rparr> (CHR ''b'') None
     = (\<lparr>list = \<lparr>head = Some 0, tail = Some 0, len = 1\<rparr>,
         heap = [0 \<mapsto> \<lparr>data = CHR ''a'', next = None\<rparr>]\<rparr>, - 1) \<and>
   ADT_sl_list_insert_after
     \<lparr>list = \<lparr>head = Some 0, tail = Some 0, len = 1\<rparr>,
      heap = [0 \<mapsto> \<lparr>data = CHR ''a'', next = None\<rparr>]\<rparr> (Some 0) (CHR ''b'') None
     = Inr (\<lparr>list = \<lparr>head = Some 0, tail = Some 0, len = 1\<rparr>,
             heap = [0 \<mapsto> \<lparr>data = CHR ''a'', next = None\<rparr>]\<rparr>, - 1)"
  using alloc_failure_leaves_list_unchanged
    [of "\<lparr>list = \<lparr>head = Some 0, tail = Some 0, len = 1\<rparr>,
          heap = [0 \<mapsto> \<lparr>data = CHR ''a'', next = None\<rparr>]\<rparr>" "CHR ''b''" "Some 0"]
  by blast

subsection \<open>push followed by pop\<close>

text \<open>
  C8, amended: for every list whose count is below the largest \<open>unsigned int\<close>.  A push
  whose allocation succeeded returns 0, and the pop that follows returns the pushed value;
  the count, the head and the node memory are then as before the push (the address
  \<open>node\<close> is free again).  At the largest count the increment wraps to 0 and the pop
  fails its assertion (\<open>push_at_largest_count\<close>, and the counterexample at the end).
\<close>

theorem push_pop_roundtrip:
  assumes "unat (ADT_sl_list_length (list s)) + 1 < 2 ^ 32"
  shows "\<exists>s' s''. ADT_sl_list_push s d (Some node) = (s', 0) \<and>
           ADT_sl_list_pop s' = Inr (s'', d) \<and>
           ADT_sl_list_length (list s'') = ADT_sl_list_length (list s) \<and>
           head (list s'') = head (list s) \<and>
           heap s'' = (heap s)(node := None)"
proof -
  from assms have "unat (len (list s) + 1) = Suc (unat (len (list s)))"
    by (simp add: ADT_sl_list_length_def unat_succ)
  then have "len (list s) + 1 \<noteq> 0"
    by (rule len_nonzero)
  then show ?thesis
    by (simp add: ADT_sl_list_push_def ADT_sl_list_pop_def ADT_sl_list_length_def Let_def)
qed

lemma push_at_largest_count:
  "len (list s) = - 1 \<Longrightarrow>
   ADT_sl_list_pop (fst (ADT_sl_list_push s d (Some node))) = Inl Abort"
  by (simp add: ADT_sl_list_push_def ADT_sl_list_pop_def ADT_sl_list_length_def Let_def)

theorem push_pop_roundtrip_witness:
  "ADT_sl_list_push
     \<lparr>list = \<lparr>head = Some 0, tail = Some 0, len = 1\<rparr>,
      heap = [0 \<mapsto> \<lparr>data = CHR ''a'', next = None\<rparr>]\<rparr> (CHR ''b'') (Some 1)
     = (\<lparr>list = \<lparr>head = Some 1, tail = Some 0, len = 2\<rparr>,
         heap = [0 \<mapsto> \<lparr>data = CHR ''a'', next = None\<rparr>,
                 1 \<mapsto> \<lparr>data = CHR ''b'', next = Some 0\<rparr>]\<rparr>, 0) \<and>
   ADT_sl_list_pop
     \<lparr>list = \<lparr>head = Some 1, tail = Some 0, len = 2\<rparr>,
      heap = [0 \<mapsto> \<lparr>data = CHR ''a'', next = None\<rparr>,
              1 \<mapsto> \<lparr>data = CHR ''b'', next = Some 0\<rparr>]\<rparr>
     = Inr (\<lparr>list = \<lparr>head = Some 0, tail = Some 0, len = 1\<rparr>,
             heap = [0 \<mapsto> \<lparr>data = CHR ''a'', next = None\<rparr>]\<rparr>, CHR ''b'')"
proof -
  let ?s = "\<lparr>list = \<lparr>head = Some 0, tail = Some 0, len = 1\<rparr>,
      heap = [0 \<mapsto> \<lparr>data = CHR ''a'', next = None\<rparr>]\<rparr>"
  have "unat (ADT_sl_list_length (list ?s)) + 1 < 2 ^ 32"
    by (simp add: ADT_sl_list_length_def)
  from push_pop_roundtrip [OF this, of "CHR ''b''" 1]
  obtain s' s'' where "ADT_sl_list_push ?s (CHR ''b'') (Some 1) = (s', 0)"
    and "ADT_sl_list_pop s' = Inr (s'', CHR ''b'')"
    by blast
  then show ?thesis
    by (auto simp: ADT_sl_list_push_def ADT_sl_list_pop_def ADT_sl_list_length_def Let_def
        fun_eq_iff)
qed

subsection \<open>Stale tail pointers\<close>

text \<open>
  C2.  \<open>pop\<close> never writes \<open>tail\<close>.  After the only element of a list is popped the
  count is 0 and \<open>head\<close> is \<open>NULL\<close>, but \<open>tail\<close> still holds the address of the node
  that was just freed.
\<close>

theorem pop_of_last_element_keeps_tail:
  "ADT_sl_list_push (ADT_sl_list_init s) d (Some node) =
     (\<lparr>list = \<lparr>head = Some node, tail = Some node, len = 1\<rparr>,
       heap = (heap s)(node \<mapsto> \<lparr>data = d, next = None\<rparr>)\<rparr>, 0) \<and>
   ADT_sl_list_pop
     \<lparr>list = \<lparr>head = Some node, tail = Some node, len = 1\<rparr>,
      heap = (heap s)(node \<mapsto> \<lparr>data = d, next = None\<rparr>)\<rparr> =
     Inr (\<lparr>list = \<lparr>head = None, tail = Some node, len = 0\<rparr>,
           heap = (heap s)(node := None)\<rparr>, d)"
  by (simp add: ADT_sl_list_push_def ADT_sl_list_pop_def ADT_sl_list_init_def
      ADT_sl_list_length_def Let_def)

text \<open>
  C3.  \<open>remove_after\<close> never writes \<open>tail\<close>.  On the valid two-element list
  \<open>a, b\<close>, removing the node after the head frees the tail node; afterwards \<open>tail\<close>
  still holds its address, which is no longer allocated, so the state is not a valid
  one-element list, and the next \<open>append\<close> writes through the stale pointer.
\<close>

theorem remove_after_of_tail_keeps_tail:
  "valid_list
     \<lparr>list = \<lparr>head = Some 0, tail = Some 1, len = 2\<rparr>,
      heap = [0 \<mapsto> \<lparr>data = CHR ''a'', next = Some 1\<rparr>,
              1 \<mapsto> \<lparr>data = CHR ''b'', next = None\<rparr>]\<rparr>
     [(0, CHR ''a''), (1, CHR ''b'')] \<and>
   ADT_sl_list_remove_after
     \<lparr>list = \<lparr>head = Some 0, tail = Some 1, len = 2\<rparr>,
      heap = [0 \<mapsto> \<lparr>data = CHR ''a'', next = Some 1\<rparr>,
              1 \<mapsto> \<lparr>data = CHR ''b'', next = None\<rparr>]\<rparr> (Some 0) =
     Inr (\<lparr>list = \<lparr>head = Some 0, tail = Some 1, len = 1\<rparr>,
           heap = [0 \<mapsto> \<lparr>data = CHR ''a'', next = None\<rparr>]\<rparr>, CHR ''b'') \<and>
   \<not> valid_list
     \<lparr>list = \<lparr>head = Some 0, tail = Some 1, len = 1\<rparr>,
      heap = [0 \<mapsto> \<lparr>data = CHR ''a'', next = None\<rparr>]\<rparr>
     [(0, CHR ''a'')] \<and>
   ADT_sl_list_append
     \<lparr>list = \<lparr>head = Some 0, tail = Some 1, len = 1\<rparr>,
      heap = [0 \<mapsto> \<lparr>data = CHR ''a'', next = None\<rparr>]\<rparr> (CHR ''c'') (Some 2) =
     Inl Invalid_Access"
  by (simp add: valid_list_def counted_def tail_of_def ADT_sl_list_remove_after_def
      ADT_sl_list_append_def ADT_sl_list_length_def Let_def fun_eq_iff)


subsection \<open>destroy\<close>

lemma destroy_counted:
  "counted s xs \<Longrightarrow>
   ADT_sl_list_destroy f s w =
     Inr (\<lparr>list = \<lparr>head = None, tail = None, len = 0\<rparr>,
           heap = (\<lambda>a. if a \<in> fst ` set xs then None else heap s a)\<rparr>,
          fold f (map snd xs) w)"
proof (induction xs arbitrary: s w)
  case Nil
  then have "len (list s) = 0"
    by (simp add: counted_def unat_eq_zero)
  then show ?case
    by (subst ADT_sl_list_destroy.simps) (simp add: ADT_sl_list_length_def)
next
  case (Cons x xs)
  obtain a d where x: "x = (a, d)" by (cases x)
  from Cons.prems x have c: "counted s ((a, d) # xs)" by simp
  then have nz: "ADT_sl_list_length (list s) \<noteq> 0"
    by (auto simp: counted_def ADT_sl_list_length_def)
  from c obtain n where "heap s a = Some n"
    and pop: "ADT_sl_list_pop s =
             Inr (\<lparr>list = (list s)\<lparr>head := next n, len := len (list s) - 1\<rparr>,
                   heap = (heap s)(a := None)\<rparr>, d)"
    and c': "counted \<lparr>list = (list s)\<lparr>head := next n, len := len (list s) - 1\<rparr>,
                    heap = (heap s)(a := None)\<rparr> xs"
    by (rule pop_counted)
  have "ADT_sl_list_destroy f s w =
      ADT_sl_list_destroy f \<lparr>list = (list s)\<lparr>head := next n, len := len (list s) - 1\<rparr>,
                    heap = (heap s)(a := None)\<rparr> (f d w)"
    using nz pop by (subst ADT_sl_list_destroy.simps) simp
  also have "\<dots> = Inr (\<lparr>list = \<lparr>head = None, tail = None, len = 0\<rparr>,
           heap = (\<lambda>b. if b \<in> fst ` set xs then None else ((heap s)(a := None)) b)\<rparr>,
          fold f (map snd xs) (f d w))"
    by (simp add: Cons.IH [OF c'] cong: if_cong)
  finally show ?case
    using x by (simp add: fun_eq_iff)
qed

lemma fold_logged:
  "fold (logged f) ds (w, cs) = (fold f ds w, cs @ ds)"
  by (induction ds arbitrary: w cs) (simp_all add: logged_def)

text \<open>
  C5.  On a list of \<open>n\<close> nodes (\<open>counted\<close>: \<open>n\<close> is the count and the number of
  nodes reachable from \<open>head\<close>), \<open>destroy\<close> returns normally for every destructor: the
  destructor has been called exactly \<open>n\<close> times, on the data of the elements from head to
  tail, once each (the calls recorded by \<open>logged\<close>; the recording changes neither the
  final list nor what the destructor did); afterwards the count is 0, \<open>head\<close> and
  \<open>tail\<close> are \<open>NULL\<close>, and the nodes are freed.
\<close>

theorem destroy_calls_destructor_once_per_element:
  assumes "counted s xs"
  shows "\<exists>s' w' calls.
           ADT_sl_list_destroy destroy s w = Inr (s', w') \<and>
           ADT_sl_list_destroy (logged destroy) s (w, []) = Inr (s', (w', calls)) \<and>
           calls = map snd xs \<and>
           length calls = unat (ADT_sl_list_length (list s)) \<and>
           w' = fold destroy calls w \<and>
           ADT_sl_list_length (list s') = 0 \<and>
           head (list s') = None \<and> tail (list s') = None \<and>
           heap s' = (\<lambda>a. if a \<in> fst ` set xs then None else heap s a)"
proof -
  from assms have "length (map snd xs) = unat (ADT_sl_list_length (list s))"
    by (simp add: counted_def ADT_sl_list_length_def)
  then show ?thesis
    by (simp add: destroy_counted [OF assms] fold_logged ADT_sl_list_length_def)
qed

theorem destroy_calls_destructor_once_per_element_witness:
  "counted \<lparr>list = \<lparr>head = Some 0, tail = Some 1, len = 2\<rparr>,
            heap = [0 \<mapsto> \<lparr>data = CHR ''a'', next = Some 1\<rparr>,
                    1 \<mapsto> \<lparr>data = CHR ''b'', next = None\<rparr>]\<rparr>
     [(0, CHR ''a''), (1, CHR ''b'')] \<and>
   ADT_sl_list_destroy (logged (\<lambda>d (k :: nat). Suc k))
     \<lparr>list = \<lparr>head = Some 0, tail = Some 1, len = 2\<rparr>,
      heap = [0 \<mapsto> \<lparr>data = CHR ''a'', next = Some 1\<rparr>,
              1 \<mapsto> \<lparr>data = CHR ''b'', next = None\<rparr>]\<rparr> (0, [])
     = Inr (\<lparr>list = \<lparr>head = None, tail = None, len = 0\<rparr>, heap = Map.empty\<rparr>,
            (2, [CHR ''a'', CHR ''b'']))"
proof -
  let ?s = "\<lparr>list = \<lparr>head = Some 0, tail = Some 1, len = 2\<rparr>,
            heap = [0 \<mapsto> \<lparr>data = CHR ''a'', next = Some 1\<rparr>,
                    1 \<mapsto> \<lparr>data = CHR ''b'', next = None\<rparr>]\<rparr>"
  have c: "counted ?s [(0, CHR ''a''), (1, CHR ''b'')]"
    by (simp add: counted_def)
  from destroy_calls_destructor_once_per_element [OF c, of "\<lambda>d (k :: nat). Suc k" 0]
  obtain s' w' calls where
    d: "ADT_sl_list_destroy (logged (\<lambda>d (k :: nat). Suc k)) ?s (0, []) = Inr (s', (w', calls))"
    and calls: "calls = [CHR ''a'', CHR ''b'']" and w': "w' = fold (\<lambda>d k. Suc k) calls 0"
    and l: "ADT_sl_list_length (list s') = 0" "head (list s') = None" "tail (list s') = None"
    and h: "heap s' = (\<lambda>a. if a \<in> fst ` set [(0 :: nat, CHR ''a''), (1, CHR ''b'')]
                          then None else heap ?s a)"
    by auto
  from l have "list s' = \<lparr>head = None, tail = None, len = 0\<rparr>"
    by (simp add: ADT_sl_list_length_def)
  moreover from h have "heap s' = Map.empty"
    by (simp add: fun_eq_iff)
  ultimately have "s' = \<lparr>list = \<lparr>head = None, tail = None, len = 0\<rparr>, heap = Map.empty\<rparr>"
    by simp
  with d calls w' c show ?thesis by simp
qed


subsection \<open>push and append, one call and many\<close>

lemma tail_of_Nil: "tail_of [] = None"
  by (simp add: tail_of_def)

lemma tail_of_snoc: "tail_of (xs @ [(a, d)]) = Some a"
  by (simp add: tail_of_def)

lemma tail_of_Cons:
  "tail_of (x # xs) = (if xs = [] then Some (fst x) else tail_of xs)"
  by (cases xs rule: rev_cases) (auto simp: tail_of_def split: prod.splits)

lemma tail_of_append_Cons: "tail_of (xs @ y # ys) = tail_of (y # ys)"
  by (induction xs) (simp_all add: tail_of_Cons)

lemma push_Some:
  "ADT_sl_list_push s d (Some node) =
     (\<lparr>list = \<lparr>head = Some node,
               tail = (if len (list s) = 0 then Some node else tail (list s)),
               len = len (list s) + 1\<rparr>,
       heap = (heap s)(node \<mapsto> \<lparr>data = d, next = head (list s)\<rparr>)\<rparr>, 0)"
  by (simp add: ADT_sl_list_push_def ADT_sl_list_length_def Let_def)

lemma push_seg:
  assumes "seg (heap s) (head (list s)) xs None" and "heap s node = None"
  shows "seg (heap (fst (ADT_sl_list_push s d (Some node))))
           (head (list (fst (ADT_sl_list_push s d (Some node))))) ((node, d) # xs) None"
proof -
  from assms have "node \<notin> fst ` set xs" by (rule seg_fresh)
  with assms(1) show ?thesis
    by (simp add: push_Some seg_upd_other)
qed

lemma push_valid:
  assumes "valid_list s xs" and "heap s node = None" and "Suc (length xs) < 2 ^ 32"
  shows "valid_list (fst (ADT_sl_list_push s d (Some node))) ((node, d) # xs)"
proof -
  from assms(1) have sg: "seg (heap s) (head (list s)) xs None"
    and cnt: "unat (len (list s)) = length xs" and tl: "tail (list s) = tail_of xs"
    by (simp_all add: valid_list_def counted_def)
  from sg assms(2) have "node \<notin> fst ` set xs" by (rule seg_fresh)
  with sg have "seg ((heap s)(node \<mapsto> \<lparr>data = d, next = head (list s)\<rparr>))
      (head (list s)) xs None"
    by (simp add: seg_upd_other)
  moreover from cnt assms(3) have "unat (len (list s) + 1) = Suc (length xs)"
    by (rule unat_succ)
  moreover from cnt have "len (list s) = 0 \<longleftrightarrow> xs = []"
    by (auto simp: unat_eq_zero [symmetric])
  ultimately show ?thesis
    using tl by (simp add: push_Some valid_list_def counted_def tail_of_Cons)
qed

lemma init_valid: "valid_list (ADT_sl_list_init s) []"
  by (simp add: ADT_sl_list_init_def valid_list_def counted_def tail_of_Nil)

lemma init_heap: "heap (ADT_sl_list_init s) = heap s"
  by (simp add: ADT_sl_list_init_def)

lemma push_all_seg:
  assumes "seg (heap s) (head (list s)) xs None"
    and "distinct (map fst nds)" and "\<forall>a\<in>fst ` set nds. heap s a = None"
  shows "\<exists>s'. push_all s nds = Some s' \<and>
           seg (heap s') (head (list s')) (rev nds @ xs) None \<and>
           len (list s') = len (list s) + of_nat (length nds)"
  using assms
proof (induction nds arbitrary: s xs)
  case Nil
  then show ?case by simp
next
  case (Cons x nds)
  obtain node d where x: "x = (node, d)" by (cases x)
  let ?s1 = "fst (ADT_sl_list_push s d (Some node))"
  from Cons.prems x have fresh: "heap s node = None" by simp
  with Cons.prems(1) have sg: "seg (heap ?s1) (head (list ?s1)) ((node, d) # xs) None"
    by (rule push_seg)
  from Cons.prems x have "distinct (map fst nds)"
    and "\<forall>a\<in>fst ` set nds. heap ?s1 a = None"
    by (auto simp: push_Some)
  from Cons.IH [OF sg this] obtain s' where "push_all ?s1 nds = Some s'"
    and "seg (heap s') (head (list s')) (rev nds @ (node, d) # xs) None"
    and "len (list s') = len (list ?s1) + of_nat (length nds)"
    by blast
  then show ?case
    using x by (simp add: push_Some)
qed

lemma push_all_valid:
  assumes "valid_list s xs"
    and "distinct (map fst nds)" and "\<forall>a\<in>fst ` set nds. heap s a = None"
    and "length xs + length nds < 2 ^ 32"
  shows "\<exists>s'. push_all s nds = Some s' \<and> valid_list s' (rev nds @ xs)"
  using assms
proof (induction nds arbitrary: s xs)
  case Nil
  then show ?case by simp
next
  case (Cons x nds)
  obtain node d where x: "x = (node, d)" by (cases x)
  let ?s1 = "fst (ADT_sl_list_push s d (Some node))"
  from Cons.prems x have fresh: "heap s node = None" by simp
  from Cons.prems have "Suc (length xs) < 2 ^ 32" by simp
  with Cons.prems(1) fresh have v: "valid_list ?s1 ((node, d) # xs)"
    by (rule push_valid)
  from Cons.prems x have "distinct (map fst nds)"
    and "\<forall>a\<in>fst ` set nds. heap ?s1 a = None"
    and "length ((node, d) # xs) + length nds < 2 ^ 32"
    by (auto simp: push_Some)
  from Cons.IH [OF v this] obtain s' where "push_all ?s1 nds = Some s'"
    and "valid_list s' (rev nds @ (node, d) # xs)"
    by blast
  then show ?case
    using x by (simp add: push_Some)
qed


lemma append_valid:
  assumes v: "valid_list s xs" and fresh: "heap s node = None"
    and bound: "Suc (length xs) < 2 ^ 32"
  obtains s' where "ADT_sl_list_append s d (Some node) = Inr (s', 0)"
    and "valid_list s' (xs @ [(node, d)])"
    and "\<And>a. heap s a = None \<Longrightarrow> a \<noteq> node \<Longrightarrow> heap s' a = None"
proof (cases xs rule: rev_cases)
  case Nil
  with v have "len (list s) = 0"
    by (simp add: valid_list_def counted_def unat_eq_zero)
  then have "ADT_sl_list_append s d (Some node) =
      Inr (fst (ADT_sl_list_push s d (Some node)), 0)"
    by (simp add: ADT_sl_list_append_def ADT_sl_list_length_def)
  moreover from v fresh bound have
    "valid_list (fst (ADT_sl_list_push s d (Some node))) ((node, d) # xs)"
    by (rule push_valid)
  moreover have "\<And>a. heap s a = None \<Longrightarrow> a \<noteq> node \<Longrightarrow>
      heap (fst (ADT_sl_list_push s d (Some node))) a = None"
    by (simp add: push_Some)
  ultimately show ?thesis
    using Nil that by simp
next
  case (snoc ys y)
  obtain t e where y: "y = (t, e)" by (cases y)
  from v have sg: "seg (heap s) (head (list s)) xs None"
    and cnt: "unat (len (list s)) = length xs" and tl: "tail (list s) = tail_of xs"
    by (simp_all add: valid_list_def counted_def)
  from sg snoc y obtain tn where ys: "seg (heap s) (head (list s)) ys (Some t)"
    and tn: "heap s t = Some tn" "data tn = e" "next tn = None"
    by (auto simp: seg_append split: option.splits)
  from sg have "distinct (map fst xs)" by (rule seg_distinct)
  with snoc y have t_ys: "t \<notin> fst ` set ys" by auto
  from sg fresh have "node \<notin> fst ` set xs" by (rule seg_fresh)
  with snoc have n_ys: "node \<notin> fst ` set ys" by auto
  from tn fresh have nt: "node \<noteq> t" by auto
  let ?h = "(heap s)(node \<mapsto> \<lparr>data = d, next = None\<rparr>, t \<mapsto> tn\<lparr>next := Some node\<rparr>)"
  let ?s' = "\<lparr>list = (list s)\<lparr>tail := Some node, len := len (list s) + 1\<rparr>, heap = ?h\<rparr>"
  from cnt snoc have "len (list s) \<noteq> 0"
    by (auto intro: len_nonzero)
  with tl snoc y tn nt have app: "ADT_sl_list_append s d (Some node) = Inr (?s', 0)"
    by (simp add: ADT_sl_list_append_def ADT_sl_list_length_def tail_of_snoc Let_def)
  from ys t_ys n_ys have "seg ?h (head (list s)) ys (Some t)"
    by (simp add: seg_upd_other)
  moreover from tn nt have "seg ?h (Some t) [(t, e), (node, d)] None"
    by simp
  ultimately have "seg ?h (head (list s)) (ys @ [(t, e), (node, d)]) None"
    unfolding seg_append by blast
  moreover from cnt bound have "unat (len (list s) + 1) = Suc (length xs)"
    by (rule unat_succ)
  ultimately have "valid_list ?s' (xs @ [(node, d)])"
    using snoc y by (simp add: valid_list_def counted_def tail_of_append_Cons tail_of_Cons)
  moreover have "\<And>a. heap s a = None \<Longrightarrow> a \<noteq> node \<Longrightarrow> heap ?s' a = None"
    using tn by auto
  ultimately show ?thesis
    using app that by blast
qed

lemma append_all_valid:
  assumes "valid_list s xs"
    and "distinct (map fst nds)" and "\<forall>a\<in>fst ` set nds. heap s a = None"
    and "length xs + length nds < 2 ^ 32"
  shows "\<exists>s'. append_all s nds = Some s' \<and> valid_list s' (xs @ nds)"
  using assms
proof (induction nds arbitrary: s xs)
  case Nil
  then show ?case by simp
next
  case (Cons x nds)
  obtain node d where x: "x = (node, d)" by (cases x)
  from Cons.prems x have fresh: "heap s node = None" by simp
  from Cons.prems have "Suc (length xs) < 2 ^ 32" by simp
  with Cons.prems(1) fresh obtain s1 where
    app: "ADT_sl_list_append s d (Some node) = Inr (s1, 0)"
    and v: "valid_list s1 (xs @ [(node, d)])"
    and keep: "\<And>a. heap s a = None \<Longrightarrow> a \<noteq> node \<Longrightarrow> heap s1 a = None"
    by (rule append_valid [of s xs node d]) blast
  from Cons.prems x have "distinct (map fst nds)"
    and "length (xs @ [(node, d)]) + length nds < 2 ^ 32"
    by auto
  moreover have "\<forall>a\<in>fst ` set nds. heap s1 a = None"
  proof
    fix a assume a: "a \<in> fst ` set nds"
    with Cons.prems x have "heap s a = None" and "a \<noteq> node" by auto
    then show "heap s1 a = None" by (rule keep)
  qed
  ultimately have "distinct (map fst nds)"
    and "\<forall>a\<in>fst ` set nds. heap s1 a = None"
    and "length (xs @ [(node, d)]) + length nds < 2 ^ 32"
    by blast+
  from Cons.IH [OF v this] obtain s' where "append_all s1 nds = Some s'"
    and "valid_list s' ((xs @ [(node, d)]) @ nds)"
    by blast
  then show ?case
    using x app by simp
qed

text \<open>
  C6, amended: the order for every sequence, the length up to the range of the count.
  Starting from an initialised list, any number of pushes whose allocations succeed
  (each \<open>malloc\<close> returning an address that is not allocated, so the addresses are
  distinct) all return 0, and the nodes reachable from \<open>head\<close> then hold the pushed
  data in reverse order of insertion.  The count is the number of pushes as an
  \<open>unsigned int\<close>; below \<open>2 ^ 32\<close> pushes it is exactly that number and the state is
  a valid list, so \<open>tail\<close> is the node pushed first.  For two pushes \<open>x\<close>, \<open>y\<close> this
  is: \<open>head\<close> holds \<open>y\<close>, its \<open>next\<close> is the tail, and the tail holds \<open>x\<close>.
\<close>

theorem push_all_reverses:
  assumes "distinct (map fst nds)" and "\<forall>a\<in>fst ` set nds. heap s a = None"
  shows "\<exists>s'. push_all (ADT_sl_list_init s) nds = Some s' \<and>
           seg (heap s') (head (list s')) (rev nds) None \<and>
           ADT_sl_list_length (list s') = of_nat (length nds) \<and>
           (length nds < 2 ^ 32 \<longrightarrow>
              unat (ADT_sl_list_length (list s')) = length nds \<and> valid_list s' (rev nds))"
proof -
  have sg: "seg (heap (ADT_sl_list_init s)) (head (list (ADT_sl_list_init s))) [] None"
    by (simp add: ADT_sl_list_init_def)
  from assms(2) have fresh: "\<forall>a\<in>fst ` set nds. heap (ADT_sl_list_init s) a = None"
    by (simp add: init_heap)
  from push_all_seg [OF sg assms(1) fresh] obtain s' where
    s': "push_all (ADT_sl_list_init s) nds = Some s'"
    and "seg (heap s') (head (list s')) (rev nds) None"
    and "len (list s') = of_nat (length nds)"
    by (auto simp: ADT_sl_list_init_def)
  moreover have "valid_list s' (rev nds)" if "length nds < 2 ^ 32"
  proof -
    from that have "length ([] :: (addr \<times> 'a) list) + length nds < 2 ^ 32" by simp
    from push_all_valid [OF init_valid assms(1) fresh this] s' show ?thesis
      by simp
  qed
  ultimately show ?thesis
    by (auto simp: ADT_sl_list_length_def valid_list_def counted_def)
qed

theorem push_all_reverses_witness:
  "distinct (map fst [(0 :: nat, CHR ''x''), (1, CHR ''y'')]) \<and>
   heap \<lparr>list = \<lparr>head = Some 7, tail = Some 9, len = 3\<rparr>,
         heap = (Map.empty :: char heap)\<rparr> 0 = None \<and>
   heap \<lparr>list = \<lparr>head = Some 7, tail = Some 9, len = 3\<rparr>,
         heap = (Map.empty :: char heap)\<rparr> 1 = None \<and>
   push_all
     (ADT_sl_list_init \<lparr>list = \<lparr>head = Some 7, tail = Some 9, len = 3\<rparr>,
                        heap = Map.empty\<rparr>)
     [(0, CHR ''x''), (1, CHR ''y'')] =
     Some \<lparr>list = \<lparr>head = Some 1, tail = Some 0, len = 2\<rparr>,
           heap = [0 \<mapsto> \<lparr>data = CHR ''x'', next = None\<rparr>,
                   1 \<mapsto> \<lparr>data = CHR ''y'', next = Some 0\<rparr>]\<rparr> \<and>
   valid_list
     \<lparr>list = \<lparr>head = Some 1, tail = Some 0, len = 2\<rparr>,
      heap = [0 \<mapsto> \<lparr>data = CHR ''x'', next = None\<rparr>,
              1 \<mapsto> \<lparr>data = CHR ''y'', next = Some 0\<rparr>]\<rparr>
     [(1, CHR ''y''), (0, CHR ''x'')]"
proof -
  let ?s = "\<lparr>list = \<lparr>head = Some 7, tail = Some 9, len = 3\<rparr>,
            heap = (Map.empty :: char heap)\<rparr>"
  let ?nds = "[(0 :: nat, CHR ''x''), (1, CHR ''y'')]"
  let ?r = "\<lparr>list = \<lparr>head = Some 1, tail = Some 0, len = 2\<rparr>,
           heap = [0 \<mapsto> \<lparr>data = CHR ''x'', next = None\<rparr>,
                   1 \<mapsto> \<lparr>data = CHR ''y'', next = Some 0\<rparr>]\<rparr>"
  have d: "distinct (map fst ?nds)" by simp
  have f: "\<forall>a\<in>fst ` set ?nds. heap ?s a = None" by simp
  have run: "push_all (ADT_sl_list_init ?s) ?nds = Some ?r"
    by (simp add: ADT_sl_list_push_def ADT_sl_list_init_def ADT_sl_list_length_def Let_def
        fun_eq_iff)
  from push_all_reverses [OF d f] obtain s' where
    "push_all (ADT_sl_list_init ?s) ?nds = Some s'"
    and "length ?nds < 2 ^ 32 \<longrightarrow> valid_list s' (rev ?nds)"
    by blast
  with run have "valid_list ?r [(1, CHR ''y''), (0, CHR ''x'')]"
    by simp
  with d run show ?thesis by simp
qed

text \<open>
  C7, amended: for every sequence of fewer than \<open>2 ^ 32\<close> appends.
  Starting from an initialised list, fewer than \<open>2 ^ 32\<close> appends whose allocations
  succeed all return 0, and the result is a valid list whose nodes hold the appended data
  in insertion order, its count being the number of appends.  (Success is the success of
  the allocation; the bound is the range of the \<open>unsigned int\<close> count.)
\<close>

theorem append_all_keeps_order:
  assumes "distinct (map fst nds)" and "\<forall>a\<in>fst ` set nds. heap s a = None"
    and "length nds < 2 ^ 32"
  shows "\<exists>s'. append_all (ADT_sl_list_init s) nds = Some s' \<and>
           seg (heap s') (head (list s')) nds None \<and>
           unat (ADT_sl_list_length (list s')) = length nds \<and>
           valid_list s' nds"
proof -
  from assms(2) have fresh: "\<forall>a\<in>fst ` set nds. heap (ADT_sl_list_init s) a = None"
    by (simp add: init_heap)
  from assms(3) have "length ([] :: (addr \<times> 'a) list) + length nds < 2 ^ 32" by simp
  from append_all_valid [OF init_valid assms(1) fresh this] show ?thesis
    by (auto simp: ADT_sl_list_length_def valid_list_def counted_def)
qed


theorem append_all_keeps_order_witness:
  "distinct (map fst [(0 :: nat, CHR ''a''), (1, CHR ''b''), (2, CHR ''c'')]) \<and>
   append_all
     (ADT_sl_list_init \<lparr>list = \<lparr>head = Some 7, tail = Some 9, len = 3\<rparr>,
                        heap = Map.empty\<rparr>)
     [(0, CHR ''a''), (1, CHR ''b''), (2, CHR ''c'')] =
     Some \<lparr>list = \<lparr>head = Some 0, tail = Some 2, len = 3\<rparr>,
           heap = [0 \<mapsto> \<lparr>data = CHR ''a'', next = Some 1\<rparr>,
                   1 \<mapsto> \<lparr>data = CHR ''b'', next = Some 2\<rparr>,
                   2 \<mapsto> \<lparr>data = CHR ''c'', next = None\<rparr>]\<rparr> \<and>
   valid_list
     \<lparr>list = \<lparr>head = Some 0, tail = Some 2, len = 3\<rparr>,
      heap = [0 \<mapsto> \<lparr>data = CHR ''a'', next = Some 1\<rparr>,
              1 \<mapsto> \<lparr>data = CHR ''b'', next = Some 2\<rparr>,
              2 \<mapsto> \<lparr>data = CHR ''c'', next = None\<rparr>]\<rparr>
     [(0, CHR ''a''), (1, CHR ''b''), (2, CHR ''c'')]"
proof -
  let ?s = "\<lparr>list = \<lparr>head = Some 7, tail = Some 9, len = 3\<rparr>,
            heap = (Map.empty :: char heap)\<rparr>"
  let ?nds = "[(0 :: nat, CHR ''a''), (1, CHR ''b''), (2, CHR ''c'')]"
  let ?r = "\<lparr>list = \<lparr>head = Some 0, tail = Some 2, len = 3\<rparr>,
           heap = [0 \<mapsto> \<lparr>data = CHR ''a'', next = Some 1\<rparr>,
                   1 \<mapsto> \<lparr>data = CHR ''b'', next = Some 2\<rparr>,
                   2 \<mapsto> \<lparr>data = CHR ''c'', next = None\<rparr>]\<rparr>"
  have d: "distinct (map fst ?nds)" by simp
  have f: "\<forall>a\<in>fst ` set ?nds. heap ?s a = None" by simp
  have b: "length ?nds < 2 ^ 32" by simp
  have run: "append_all (ADT_sl_list_init ?s) ?nds = Some ?r"
    by (simp add: ADT_sl_list_append_def ADT_sl_list_push_def ADT_sl_list_init_def
        ADT_sl_list_length_def Let_def fun_eq_iff)
  from append_all_keeps_order [OF d f b] obtain s' where
    "append_all (ADT_sl_list_init ?s) ?nds = Some s'" and "valid_list s' ?nds"
    by blast
  with run have "valid_list ?r ?nds"
    by simp
  with d run show ?thesis by simp
qed

subsection \<open>Insertion after a node\<close>

lemma insert_after_stale_loc:
  "ADT_sl_list_insert_after s (Some node) d (Some node) =
     Inr (\<lparr>list = (if Some node = tail (list s) then (list s)\<lparr>tail := Some node\<rparr> else list s)
                   \<lparr>len := len (list s) + 1\<rparr>,
           heap = (heap s)(node \<mapsto> \<lparr>data = d, next = Some node\<rparr>)\<rparr>, 0)"
  by (simp add: ADT_sl_list_insert_after_def Let_def)



subsection \<open>The count at the limit of \<open>unsigned int\<close>\<close>

lemma of_nat_len_zero:
  "n < 2 ^ 32 \<Longrightarrow> (of_nat n :: 32 word) = 0 \<longleftrightarrow> n = 0"
proof -
  assume "n < 2 ^ 32"
  then have "unat (of_nat n :: 32 word) = n"
    by (simp add: unat_of_nat)
  then show ?thesis
    by (auto simp: unat_eq_zero [symmetric])
qed

lemma length_a_nodes: "length (a_nodes n) = n"
  by (induction n) simp_all

lemma fst_a_nodes: "map fst (a_nodes n) = [0..<n]"
  by (induction n) simp_all

lemma push_all_append:
  "push_all s (xs @ ys) =
     (case push_all s xs of None \<Rightarrow> None | Some s' \<Rightarrow> push_all s' ys)"
  by (induction s xs rule: push_all.induct) (simp_all split: prod.splits)

lemma append_all_append:
  "append_all s (xs @ ys) =
     (case append_all s xs of None \<Rightarrow> None | Some s' \<Rightarrow> append_all s' ys)"
  by (induction s xs rule: append_all.induct) (simp_all split: prod.splits sum.splits)

lemma push_pushed:
  assumes "n < 2 ^ 32"
  shows "ADT_sl_list_push (pushed n) (CHR ''a'') (Some n) = (pushed (Suc n), 0)"
proof -
  from assms have "(of_nat n :: 32 word) = 0 \<longleftrightarrow> n = 0" by (rule of_nat_len_zero)
  then show ?thesis
    by (auto simp: ADT_sl_list_push_def ADT_sl_list_length_def Let_def pushed_def fun_eq_iff)
qed

lemma push_all_pushed:
  "n \<le> 2 ^ 32 \<Longrightarrow> push_all (pushed 0) (a_nodes n) = Some (pushed n)"
proof (induction n)
  case 0
  then show ?case by simp
next
  case (Suc n)
  then have "push_all (pushed 0) (a_nodes n) = Some (pushed n)" and "n < 2 ^ 32"
    by simp_all
  then show ?case
    by (simp add: push_all_append push_pushed)
qed

lemma append_appended:
  assumes "n < 2 ^ 32"
  shows "ADT_sl_list_append (appended n) (CHR ''a'') (Some n) = Inr (appended (Suc n), 0)"
proof -
  from assms have z: "(of_nat n :: 32 word) = 0 \<longleftrightarrow> n = 0" by (rule of_nat_len_zero)
  show ?thesis
  proof (cases "n = 0")
    case True
    then show ?thesis
      by (auto simp: ADT_sl_list_append_def ADT_sl_list_push_def ADT_sl_list_length_def
          Let_def appended_def fun_eq_iff)
  next
    case False
    with z have "(of_nat n :: 32 word) \<noteq> 0" by simp
    with False show ?thesis
      by (auto simp: ADT_sl_list_append_def ADT_sl_list_length_def Let_def appended_def
          fun_eq_iff)
  qed
qed

lemma append_all_appended:
  "n \<le> 2 ^ 32 \<Longrightarrow> append_all (appended 0) (a_nodes n) = Some (appended n)"
proof (induction n)
  case 0
  then show ?case by simp
next
  case (Suc n)
  then have "append_all (appended 0) (a_nodes n) = Some (appended n)" and "n < 2 ^ 32"
    by simp_all
  then show ?case
    by (simp add: append_all_append append_appended)
qed

lemma init_empty_pushed:
  "ADT_sl_list_init \<lparr>list = \<lparr>head = None, tail = None, len = 0\<rparr>,
                     heap = (Map.empty :: char heap)\<rparr> = pushed 0"
  by (simp add: ADT_sl_list_init_def pushed_def)

lemma init_empty_appended:
  "ADT_sl_list_init \<lparr>list = \<lparr>head = None, tail = None, len = 0\<rparr>,
                     heap = (Map.empty :: char heap)\<rparr> = appended 0"
  by (simp add: ADT_sl_list_init_def appended_def)


lemma rev_a_nodes_Suc: "rev (a_nodes (Suc n)) = (n, CHR ''a'') # rev (a_nodes n)"
  by simp

lemma valid_pushed:
  "n < 2 ^ 32 \<Longrightarrow> valid_list (pushed n) (rev (a_nodes n))"
proof (induction n)
  case 0
  then show ?case
    by (simp add: pushed_def valid_list_def counted_def tail_of_def)
next
  case (Suc n)
  then have v: "valid_list (pushed n) (rev (a_nodes n))"
    and b: "Suc (length (rev (a_nodes n))) < 2 ^ 32" and n: "n < 2 ^ 32"
    by (simp_all add: length_a_nodes)
  have f: "heap (pushed n) n = None"
    by (simp add: pushed_def)
  from push_valid [OF v f b, of "CHR ''a''"] n show ?case
    by (simp add: push_pushed)
qed

text \<open>
  C8 as stated, for every list, fails at the largest count.  The list of
  \<open>2 ^ 32 - 1\<close> elements is reached from the initialised empty list by pushes alone and
  is valid; one more push succeeds and returns 0, the count wraps to 0, and the pop that
  follows fails its assertion.
\<close>

theorem push_pop_roundtrip_counterexample:
  "push_all
     (ADT_sl_list_init \<lparr>list = \<lparr>head = None, tail = None, len = 0\<rparr>, heap = Map.empty\<rparr>)
     (a_nodes 4294967295) = Some (pushed 4294967295) \<and>
   valid_list (pushed 4294967295) (rev (a_nodes 4294967295)) \<and>
   ADT_sl_list_length (list (pushed 4294967295)) = 4294967295 \<and>
   heap (pushed 4294967295) 4294967295 = None \<and>
   snd (ADT_sl_list_push (pushed 4294967295) (CHR ''b'') (Some 4294967295)) = 0 \<and>
   ADT_sl_list_length
     (list (fst (ADT_sl_list_push (pushed 4294967295) (CHR ''b'') (Some 4294967295)))) = 0 \<and>
   ADT_sl_list_pop (fst (ADT_sl_list_push (pushed 4294967295) (CHR ''b'') (Some 4294967295)))
     = Inl Abort"
proof -
  have "push_all (pushed 0) (a_nodes 4294967295) = Some (pushed 4294967295)"
    by (rule push_all_pushed) simp
  moreover have "valid_list (pushed 4294967295) (rev (a_nodes 4294967295))"
    by (rule valid_pushed) simp
  moreover have l: "len (list (pushed 4294967295)) = - 1"
    by (simp add: pushed_def)
  then have "ADT_sl_list_pop
      (fst (ADT_sl_list_push (pushed 4294967295) (CHR ''b'') (Some 4294967295))) = Inl Abort"
    by (rule push_at_largest_count)
  moreover have "heap (pushed 4294967295) 4294967295 = None"
    by (simp add: pushed_def)
  moreover from l have "ADT_sl_list_length
     (list (fst (ADT_sl_list_push (pushed 4294967295) (CHR ''b'') (Some 4294967295)))) = 0"
    by (simp add: push_Some ADT_sl_list_length_def)
  moreover have "ADT_sl_list_length (list (pushed 4294967295)) = 4294967295"
    by (simp add: pushed_def ADT_sl_list_length_def)
  ultimately show ?thesis
    by (simp add: init_empty_pushed push_result)
qed

text \<open>
  C6 as stated, for every sequence, fails for the length at \<open>2 ^ 32\<close> pushes: all of
  them succeed, and the length is then 0.
\<close>

theorem push_all_reverses_counterexample:
  "push_all
     (ADT_sl_list_init \<lparr>list = \<lparr>head = None, tail = None, len = 0\<rparr>, heap = Map.empty\<rparr>)
     (a_nodes 4294967296) = Some (pushed 4294967296) \<and>
   map fst (a_nodes 4294967296) = [0..<4294967296] \<and>
   length (a_nodes 4294967296) = 4294967296 \<and>
   ADT_sl_list_length (list (pushed 4294967296)) = 0 \<and>
   unat (ADT_sl_list_length (list (pushed 4294967296))) \<noteq> length (a_nodes 4294967296)"
proof -
  have "push_all (pushed 0) (a_nodes 4294967296) = Some (pushed 4294967296)"
    by (rule push_all_pushed) simp
  moreover have "ADT_sl_list_length (list (pushed 4294967296)) = 0"
    by (simp add: pushed_def ADT_sl_list_length_def)
  ultimately show ?thesis
    by (simp add: init_empty_pushed length_a_nodes fst_a_nodes)
qed

text \<open>
  C7 as stated, for every sequence, fails for the length at \<open>2 ^ 32\<close> appends: all of
  them succeed, and the length is then 0.  The append after that finds the count 0, goes
  through \<open>push\<close> and puts its element at the head, in front of the others, with
  \<open>tail\<close> pointing to it.
\<close>

theorem append_all_keeps_order_counterexample:
  "append_all
     (ADT_sl_list_init \<lparr>list = \<lparr>head = None, tail = None, len = 0\<rparr>, heap = Map.empty\<rparr>)
     (a_nodes 4294967296) = Some (appended 4294967296) \<and>
   map fst (a_nodes 4294967296) = [0..<4294967296] \<and>
   length (a_nodes 4294967296) = 4294967296 \<and>
   ADT_sl_list_length (list (appended 4294967296)) = 0 \<and>
   unat (ADT_sl_list_length (list (appended 4294967296))) \<noteq> length (a_nodes 4294967296) \<and>
   heap (appended 4294967296) 4294967296 = None \<and>
   ADT_sl_list_append (appended 4294967296) (CHR ''b'') (Some 4294967296) =
     Inr (\<lparr>list = \<lparr>head = Some 4294967296, tail = Some 4294967296, len = 1\<rparr>,
           heap = (heap (appended 4294967296))
                    (4294967296 \<mapsto> \<lparr>data = CHR ''b'', next = Some 0\<rparr>)\<rparr>, 0)"
proof -
  have "append_all (appended 0) (a_nodes 4294967296) = Some (appended 4294967296)"
    by (rule append_all_appended) simp
  moreover have z: "len (list (appended 4294967296)) = 0"
    by (simp add: appended_def)
  moreover have "head (list (appended 4294967296)) = Some 0"
    by (simp add: appended_def)
  then have "ADT_sl_list_append (appended 4294967296) (CHR ''b'') (Some 4294967296) =
     Inr (\<lparr>list = \<lparr>head = Some 4294967296, tail = Some 4294967296, len = 1\<rparr>,
           heap = (heap (appended 4294967296))
                    (4294967296 \<mapsto> \<lparr>data = CHR ''b'', next = Some 0\<rparr>)\<rparr>, 0)"
    using z by (simp add: ADT_sl_list_append_def ADT_sl_list_length_def push_Some)
  moreover have "heap (appended 4294967296) 4294967296 = None"
    by (simp add: appended_def)
  ultimately show ?thesis
    by (simp add: init_empty_appended length_a_nodes fst_a_nodes ADT_sl_list_length_def)
qed

end
